theory Spec2Isabelle
  imports Main "HOL-Library.Word"
begin

section \<open>Memory model shared by the programs\<close>

text \<open>
  Every program of the repository builds its structure out of heap cells that
  hold a C \<^verbatim>\<open>int\<close> and one or two pointers.  A pointer is \<open>None\<close> for
  \<^verbatim>\<open>NULL\<close> and \<open>Some a\<close> for the address \<open>a\<close>; a heap is a partial map
  from addresses to cells, and \<^verbatim>\<open>free\<close> removes the cell.  The value
  returned by \<^verbatim>\<open>malloc\<close> and the values read by \<^verbatim>\<open>scanf\<close> are
  inputs of the operation that makes the call.

  What C leaves undefined is a result of its own: dereferencing \<^verbatim>\<open>NULL\<close>,
  dereferencing an address that holds no cell (freed or never allocated), and
  reading a local pointer that was never assigned.  A loop that walks pointers
  is a \<^theory_text>\<open>partial_function\<close> in the option monad, so that a walk that
  never ends has the value \<open>None\<close>.
\<close>

type_synonym cint = "32 word"
type_synonym addr = nat
type_synonym ptr = "addr option"

datatype fault = NullDeref | Dangling | UninitRead

text \<open>What the operations print, apart from prompts.\<close>

datatype event = Overflow | Underflow | LocationNotFound | Deleted cint

text \<open>A local pointer variable declared without an initialiser.\<close>

datatype lvar = Uninit | Val ptr

text \<open>Reading \<^verbatim>\<open>*p\<close> and writing a field of \<^verbatim>\<open>*p\<close>.\<close>

definition load :: "(addr \<rightharpoonup> 'n) \<Rightarrow> ptr \<Rightarrow> fault + 'n" where
  "load h p =
     (case p of
        None \<Rightarrow> Inl NullDeref
      | Some a \<Rightarrow> (case h a of None \<Rightarrow> Inl Dangling | Some n \<Rightarrow> Inr n))"

definition store :: "(addr \<rightharpoonup> 'n) \<Rightarrow> ptr \<Rightarrow> ('n \<Rightarrow> 'n) \<Rightarrow> fault + (addr \<rightharpoonup> 'n)" where
  "store h p f =
     (case p of
        None \<Rightarrow> Inl NullDeref
      | Some a \<Rightarrow> (case h a of None \<Rightarrow> Inl Dangling | Some n \<Rightarrow> Inr (h(a \<mapsto> f n))))"

text \<open>Sequencing of steps that may fault.\<close>

fun seq :: "fault + 'a \<Rightarrow> ('a \<Rightarrow> fault + 'b) \<Rightarrow> fault + 'b" where
  "seq (Inl e) f = Inl e"
| "seq (Inr x) f = f x"

text \<open>The three cell layouts of the sources.\<close>

record dnode =
  info :: cint
  prev :: ptr
  "next" :: ptr

record lnode =
  data :: cint
  "next" :: ptr

record node =
  info :: cint
  link :: ptr

type_synonym dheap = "addr \<rightharpoonup> dnode"
type_synonym lheap = "addr \<rightharpoonup> lnode"
type_synonym heap = "addr \<rightharpoonup> node"

text \<open>
  \<open>path nxt h p as q\<close>: starting at pointer \<open>p\<close> and following the field
  \<open>nxt\<close> visits exactly the cells \<open>as\<close>, in this order, and arrives at
  \<open>q\<close>.  A linear list is a path to \<^verbatim>\<open>NULL\<close>; a ring is a non-empty
  path from the entry pointer back to itself.
\<close>

fun path :: "('n \<Rightarrow> ptr) \<Rightarrow> (addr \<rightharpoonup> 'n) \<Rightarrow> ptr \<Rightarrow> addr list \<Rightarrow> ptr \<Rightarrow> bool" where
  "path nxt h p [] q = (p = q)"
| "path nxt h p (a # as) q =
     (p = Some a \<and> (case h a of None \<Rightarrow> False | Some n \<Rightarrow> path nxt h (nxt n) as q))"

definition chain :: "('n \<Rightarrow> ptr) \<Rightarrow> (addr \<rightharpoonup> 'n) \<Rightarrow> ptr \<Rightarrow> addr list \<Rightarrow> bool" where
  "chain nxt h p as = path nxt h p as None"

definition ring :: "('n \<Rightarrow> ptr) \<Rightarrow> (addr \<rightharpoonup> 'n) \<Rightarrow> ptr \<Rightarrow> addr list \<Rightarrow> bool" where
  "ring nxt h p as = (as \<noteq> [] \<and> distinct as \<and> path nxt h p as p)"

text \<open>Following the field \<open>nxt\<close> a given number of times.\<close>

fun follow :: "('n \<Rightarrow> ptr) \<Rightarrow> (addr \<rightharpoonup> 'n) \<Rightarrow> ptr \<Rightarrow> nat \<Rightarrow> ptr" where
  "follow nxt h p 0 = p"
| "follow nxt h p (Suc k) =
     (case p of
        None \<Rightarrow> None
      | Some a \<Rightarrow> (case h a of None \<Rightarrow> None | Some n \<Rightarrow> follow nxt h (nxt n) k))"


section \<open>Doubly linked list: \<^verbatim>\<open>menu_DLL.c\<close>\<close>

text \<open>
  \<^verbatim>\<open>delete_beg\<close>: after the \<^verbatim>\<open>NULL\<close> test the code moves
  \<^verbatim>\<open>start\<close> to \<^verbatim>\<open>start->next\<close> and writes \<^verbatim>\<open>start->prev\<close>
  without testing the new \<^verbatim>\<open>start\<close>.
\<close>

definition delete_beg_dll :: "dheap \<Rightarrow> ptr \<Rightarrow> fault + dheap \<times> ptr \<times> event list" where
  "delete_beg_dll h start =
     (case start of
        None \<Rightarrow> Inr (h, start, [Underflow])
      | Some a \<Rightarrow>
          seq (load h start) (\<lambda>n.
          seq (store h (dnode.next n) (\<lambda>c. c\<lparr>prev := None\<rparr>)) (\<lambda>h1.
          Inr (h1(a := None), dnode.next n, [Deleted (dnode.info n)]))))"

text \<open>
  \<^verbatim>\<open>delete_end\<close>: \<^verbatim>\<open>prev\<close> is declared without a value and is
  assigned only inside the loop
  \<^verbatim>\<open>while(ptr->next!=NULL){ prev=ptr; ptr=ptr->next; }\<close>; after the loop
  the code writes \<^verbatim>\<open>prev->next\<close>.
\<close>

partial_function (option) delete_end_dll_walk ::
  "dheap \<Rightarrow> ptr \<Rightarrow> lvar \<Rightarrow> (fault + ptr \<times> lvar) option" where
  "delete_end_dll_walk h pt pv =
     (case load h pt of
        Inl e \<Rightarrow> Some (Inl e)
      | Inr n \<Rightarrow>
          if dnode.next n \<noteq> None then delete_end_dll_walk h (dnode.next n) (Val pt)
          else Some (Inr (pt, pv)))"

declare delete_end_dll_walk.simps [code]

definition delete_end_dll :: "dheap \<Rightarrow> ptr \<Rightarrow> (fault + dheap \<times> ptr \<times> event list) option" where
  "delete_end_dll h start =
     (case start of
        None \<Rightarrow> Some (Inr (h, start, [Underflow]))
      | Some a \<Rightarrow>
          (case delete_end_dll_walk h start Uninit of
             None \<Rightarrow> None
           | Some (Inl e) \<Rightarrow> Some (Inl e)
           | Some (Inr (pt, pv)) \<Rightarrow>
               (case pt of
                  None \<Rightarrow> Some (Inl NullDeref)
                | Some b \<Rightarrow>
                    Some (seq (load h pt) (\<lambda>n.
                          (case pv of
                             Uninit \<Rightarrow> Inl UninitRead
                           | Val p \<Rightarrow>
                               seq (store h p (\<lambda>c. c\<lparr>dnode.next := None\<rparr>)) (\<lambda>h1.
                               Inr (h1(b := None), start, [Deleted (dnode.info n)]))))))))"

text \<open>
  \<^verbatim>\<open>insert_LOC\<close>.  The walk
  \<^verbatim>\<open>while(i<loc && ptr!=NULL){ ptr=ptr1; ptr=ptr->next; i++; }\<close>
  tests \<^verbatim>\<open>ptr\<close>, which has no value before the first round, and never
  assigns \<^verbatim>\<open>ptr1\<close>.  The first argument of the model is the content of
  \<^verbatim>\<open>ptr\<close> at entry: \<open>Uninit\<close> is the program as written, and \<open>Val g\<close>
  tells what would follow if the read produced the pointer \<open>g\<close>.
  The position and the counter are only compared and incremented, and
  \<^verbatim>\<open>i++\<close> runs under \<^verbatim>\<open>i<loc\<close>, so it cannot overflow: both are
  integers here.
\<close>

partial_function (option) insert_LOC_walk ::
  "dheap \<Rightarrow> ptr \<Rightarrow> int \<Rightarrow> int \<Rightarrow> lvar \<Rightarrow> (fault + lvar) option" where
  "insert_LOC_walk h ptr1 loc i pt =
     (if i < loc then
        (case pt of
           Uninit \<Rightarrow> Some (Inl UninitRead)
         | Val p \<Rightarrow>
             if p \<noteq> None then
               (case load h ptr1 of
                  Inl e \<Rightarrow> Some (Inl e)
                | Inr n \<Rightarrow> insert_LOC_walk h ptr1 loc (i + 1) (Val (dnode.next n)))
             else Some (Inr pt))
      else Some (Inr pt))"

declare insert_LOC_walk.simps [code]

definition insert_LOC_from ::
  "lvar \<Rightarrow> dheap \<Rightarrow> ptr \<Rightarrow> ptr \<Rightarrow> cint \<Rightarrow> int \<Rightarrow> (fault + dheap \<times> ptr \<times> event list) option" where
  "insert_LOC_from pt0 h start new item loc =
     (case new of
        None \<Rightarrow> Some (Inr (h, start, [Overflow]))
      | Some nw \<Rightarrow>
          (let h1 = h(nw \<mapsto> \<lparr>dnode.info = item, prev = None, next = None\<rparr>) in
           if start = None then Some (Inr (h1, new, []))
           else
             (let ptr1 = start in
              case insert_LOC_walk h1 ptr1 loc 1 pt0 of
                None \<Rightarrow> None
              | Some (Inl e) \<Rightarrow> Some (Inl e)
              | Some (Inr pt) \<Rightarrow>
                  if ptr1 = None then Some (Inr (h1, start, [LocationNotFound]))
                  else if ptr1 = start then
                    Some (seq (store h1 new (\<lambda>c. c\<lparr>dnode.next := start\<rparr>)) (\<lambda>h2.
                          seq (store h2 start (\<lambda>c. c\<lparr>prev := new\<rparr>)) (\<lambda>h3.
                          Inr (h3, new, []))))
                  else
                    (case pt of
                       Uninit \<Rightarrow> Some (Inl UninitRead)
                     | Val p \<Rightarrow>
                         Some (seq (store h1 p (\<lambda>c. c\<lparr>dnode.next := new\<rparr>)) (\<lambda>h2.
                               seq (store h2 new (\<lambda>c. c\<lparr>prev := p\<rparr>)) (\<lambda>h3.
                               seq (store h3 new (\<lambda>c. c\<lparr>dnode.next := ptr1\<rparr>)) (\<lambda>h4.
                               seq (store h4 ptr1 (\<lambda>c. c\<lparr>prev := new\<rparr>)) (\<lambda>h5.
                               Inr (h5, start, []))))))))))"

definition insert_LOC ::
  "dheap \<Rightarrow> ptr \<Rightarrow> ptr \<Rightarrow> cint \<Rightarrow> int \<Rightarrow> (fault + dheap \<times> ptr \<times> event list) option" where
  "insert_LOC = insert_LOC_from Uninit"


section \<open>Circular doubly linked list: \<^verbatim>\<open>CDLL.c\<close>\<close>

definition create_cdll :: "dheap \<Rightarrow> ptr \<Rightarrow> ptr \<Rightarrow> cint \<Rightarrow> dheap \<times> ptr \<times> event list" where
  "create_cdll h start new item =
     (case new of
        None \<Rightarrow> (h, start, [Overflow])
      | Some nw \<Rightarrow> (h(nw \<mapsto> \<lparr>dnode.info = item, prev = new, next = new\<rparr>), new, []))"

text \<open>
  \<^verbatim>\<open>traverse\<close> prints \<^verbatim>\<open>OVERFLOW\<close> for the empty ring; otherwise it
  prints the first cell and walks \<^verbatim>\<open>next\<close> until the pointer equals
  \<^verbatim>\<open>start\<close> again.  The result is the list of the values printed.
\<close>

partial_function (option) traverse_cdll_loop ::
  "dheap \<Rightarrow> ptr \<Rightarrow> ptr \<Rightarrow> cint list \<Rightarrow> (fault + cint list \<times> event list) option" where
  "traverse_cdll_loop h start pt out =
     (if pt \<noteq> start then
        (case load h pt of
           Inl e \<Rightarrow> Some (Inl e)
         | Inr n \<Rightarrow> traverse_cdll_loop h start (dnode.next n) (out @ [dnode.info n]))
      else Some (Inr (out, [])))"

declare traverse_cdll_loop.simps [code]

definition traverse_cdll :: "dheap \<Rightarrow> ptr \<Rightarrow> (fault + cint list \<times> event list) option" where
  "traverse_cdll h start =
     (if start = None then Some (Inr ([], [Overflow]))
      else
        (case load h start of
           Inl e \<Rightarrow> Some (Inl e)
         | Inr n \<Rightarrow> traverse_cdll_loop h start (dnode.next n) [dnode.info n]))"

definition insert_beg_cdll ::
  "dheap \<Rightarrow> ptr \<Rightarrow> ptr \<Rightarrow> cint \<Rightarrow> fault + dheap \<times> ptr \<times> event list" where
  "insert_beg_cdll h start new item =
     (case new of
        None \<Rightarrow> Inr (h, start, [Overflow])
      | Some nw \<Rightarrow>
          (let h1 = h(nw \<mapsto> \<lparr>dnode.info = item, prev = None, next = None\<rparr>) in
           if start = None then Inr (h1, new, [])
           else
             seq (load h1 start) (\<lambda>s.
             (let pt = prev s in
              seq (store h1 pt (\<lambda>c. c\<lparr>dnode.next := new\<rparr>)) (\<lambda>h2.
              seq (store h2 new (\<lambda>c. c\<lparr>prev := pt\<rparr>)) (\<lambda>h3.
              seq (store h3 new (\<lambda>c. c\<lparr>dnode.next := start\<rparr>)) (\<lambda>h4.
              seq (store h4 start (\<lambda>c. c\<lparr>prev := new\<rparr>)) (\<lambda>h5.
              Inr (h5, new, [])))))))))"

definition insert_end_cdll ::
  "dheap \<Rightarrow> ptr \<Rightarrow> ptr \<Rightarrow> cint \<Rightarrow> fault + dheap \<times> ptr \<times> event list" where
  "insert_end_cdll h start new item =
     (case new of
        None \<Rightarrow> Inr (h, start, [Overflow])
      | Some nw \<Rightarrow>
          (let h1 = h(nw \<mapsto> \<lparr>dnode.info = item, prev = None, next = None\<rparr>) in
           if start = None then Inr (h1, new, [])
           else
             seq (load h1 start) (\<lambda>s.
             (let pt = prev s in
              seq (store h1 pt (\<lambda>c. c\<lparr>dnode.next := new\<rparr>)) (\<lambda>h2.
              seq (store h2 new (\<lambda>c. c\<lparr>prev := pt\<rparr>)) (\<lambda>h3.
              seq (store h3 new (\<lambda>c. c\<lparr>dnode.next := start\<rparr>)) (\<lambda>h4.
              seq (store h4 start (\<lambda>c. c\<lparr>prev := new\<rparr>)) (\<lambda>h5.
              Inr (h5, start, [])))))))))"

text \<open>
  \<^verbatim>\<open>delete_beg\<close> returns \<^verbatim>\<open>ptr->next\<close> read before the unlinking, and
  frees \<^verbatim>\<open>ptr\<close> whatever the size of the ring.
\<close>

definition delete_beg_cdll :: "dheap \<Rightarrow> ptr \<Rightarrow> fault + dheap \<times> ptr \<times> event list" where
  "delete_beg_cdll h start =
     (case start of
        None \<Rightarrow> Inr (h, start, [Underflow])
      | Some a \<Rightarrow>
          seq (load h start) (\<lambda>n.
          seq (store h (prev n) (\<lambda>c. c\<lparr>dnode.next := dnode.next n\<rparr>)) (\<lambda>h1.
          seq (load h1 start) (\<lambda>n1.
          seq (store h1 (dnode.next n1) (\<lambda>c. c\<lparr>prev := prev n1\<rparr>)) (\<lambda>h2.
          Inr (h2(a := None), dnode.next n, [Deleted (dnode.info n)]))))))"

text \<open>\<^verbatim>\<open>delete_end\<close> prints \<^verbatim>\<open>OVERFLOW\<close> when the ring is empty.\<close>

definition delete_end_cdll :: "dheap \<Rightarrow> ptr \<Rightarrow> fault + dheap \<times> ptr \<times> event list" where
  "delete_end_cdll h start =
     (case start of
        None \<Rightarrow> Inr (h, start, [Overflow])
      | Some a \<Rightarrow>
          seq (load h start) (\<lambda>s.
          (case prev s of
             None \<Rightarrow> Inl NullDeref
           | Some b \<Rightarrow>
               seq (load h (Some b)) (\<lambda>n.
               seq (store h (prev n) (\<lambda>c. c\<lparr>dnode.next := start\<rparr>)) (\<lambda>h1.
               seq (load h1 (Some b)) (\<lambda>n1.
               seq (store h1 start (\<lambda>c. c\<lparr>prev := prev n1\<rparr>)) (\<lambda>h2.
               Inr (h2(b := None), start, [Deleted (dnode.info n)]))))))))"


section \<open>Deletion by value: \<^verbatim>\<open>linked_delete.c\<close>\<close>

text \<open>
  \<^verbatim>\<open>deleteAtvalue\<close> starts its search at \<^verbatim>\<open>head->next\<close>, with
  \<^verbatim>\<open>p\<close> one cell behind \<^verbatim>\<open>q\<close>.  The walk returns the two pointers it
  stops at.
\<close>

partial_function (option) deleteAtvalue_walk ::
  "lheap \<Rightarrow> cint \<Rightarrow> ptr \<Rightarrow> ptr \<Rightarrow> (fault + ptr \<times> ptr) option" where
  "deleteAtvalue_walk h v p q =
     (case load h q of
        Inl e \<Rightarrow> Some (Inl e)
      | Inr qn \<Rightarrow>
          if data qn \<noteq> v \<and> next qn \<noteq> None then
            (case load h p of
               Inl e \<Rightarrow> Some (Inl e)
             | Inr pn \<Rightarrow> deleteAtvalue_walk h v (next pn) (next qn))
          else Some (Inr (p, q)))"

declare deleteAtvalue_walk.simps [code]

definition deleteAtvalue :: "lheap \<Rightarrow> ptr \<Rightarrow> cint \<Rightarrow> (fault + lheap \<times> ptr) option" where
  "deleteAtvalue h head v =
     (case load h head of
        Inl e \<Rightarrow> Some (Inl e)
      | Inr hn \<Rightarrow>
          (case deleteAtvalue_walk h v head (next hn) of
             None \<Rightarrow> None
           | Some (Inl e) \<Rightarrow> Some (Inl e)
           | Some (Inr (p, q)) \<Rightarrow>
               (case q of
                  None \<Rightarrow> Some (Inl NullDeref)
                | Some qa \<Rightarrow>
                    Some (seq (load h q) (\<lambda>qn.
                          if data qn = v then
                            seq (store h p (\<lambda>c. c\<lparr>next := next qn\<rparr>)) (\<lambda>h1.
                            Inr (h1(qa := None), head))
                          else Inr (h, head))))))"


section \<open>Circular singly linked list: \<^verbatim>\<open>csll.c\<close>\<close>

text \<open>\<^verbatim>\<open>create_csll\<close> links the new cell to the \<^verbatim>\<open>start\<close> it was given.\<close>

definition create_csll :: "heap \<Rightarrow> ptr \<Rightarrow> ptr \<Rightarrow> cint \<Rightarrow> heap \<times> ptr \<times> event list" where
  "create_csll h start new item =
     (case new of
        None \<Rightarrow> (h, start, [Overflow])
      | Some nw \<Rightarrow> (h(nw \<mapsto> \<lparr>info = item, link = start\<rparr>), new, []))"

text \<open>
  \<^verbatim>\<open>insert_beg\<close>, non-empty case:
  \<^verbatim>\<open>for(ptr=start;ptr->link!=start;ptr=ptr->link){ptr->link=new;new->link=start;start=new;}\<close>.
  The three assignments are the body of the loop, and its test reads the
  current \<^verbatim>\<open>start\<close>.
\<close>

partial_function (option) insert_beg_csll_loop ::
  "heap \<Rightarrow> ptr \<Rightarrow> ptr \<Rightarrow> ptr \<Rightarrow> (fault + heap \<times> ptr) option" where
  "insert_beg_csll_loop h new start pt =
     (case load h pt of
        Inl e \<Rightarrow> Some (Inl e)
      | Inr n \<Rightarrow>
          if link n \<noteq> start then
            (case seq (store h pt (\<lambda>c. c\<lparr>link := new\<rparr>)) (\<lambda>h1.
                  seq (store h1 new (\<lambda>c. c\<lparr>link := start\<rparr>)) (\<lambda>h2.
                  seq (load h2 pt) (\<lambda>n2. Inr (h2, link n2)))) of
               Inl e \<Rightarrow> Some (Inl e)
             | Inr (h2, pt2) \<Rightarrow> insert_beg_csll_loop h2 new new pt2)
          else Some (Inr (h, start)))"

declare insert_beg_csll_loop.simps [code]

definition insert_beg_csll ::
  "heap \<Rightarrow> ptr \<Rightarrow> ptr \<Rightarrow> cint \<Rightarrow> (fault + heap \<times> ptr \<times> event list) option" where
  "insert_beg_csll h start new item =
     (case new of
        None \<Rightarrow> Some (Inr (h, start, [Overflow]))
      | Some nw \<Rightarrow>
          (let h1 = h(nw \<mapsto> \<lparr>info = item, link = None\<rparr>) in
           if start = None then Some (Inr (h1(nw \<mapsto> \<lparr>info = item, link = new\<rparr>), new, []))
           else
             (case insert_beg_csll_loop h1 new start start of
                None \<Rightarrow> None
              | Some (Inl e) \<Rightarrow> Some (Inl e)
              | Some (Inr (h2, start2)) \<Rightarrow> Some (Inr (h2, start2, [])))))"

text \<open>
  \<^verbatim>\<open>delete_beg\<close>, non-empty case: the walk
  \<^verbatim>\<open>while(ptr->link!=NULL) ptr=ptr->link;\<close> looks for a cell whose link
  is \<^verbatim>\<open>NULL\<close>; then \<^verbatim>\<open>ptr->link=start->link\<close>, and \<^verbatim>\<open>start\<close> is
  returned as it came.  Nothing is freed.
\<close>

partial_function (option) delete_beg_csll_walk :: "heap \<Rightarrow> ptr \<Rightarrow> (fault + ptr) option" where
  "delete_beg_csll_walk h pt =
     (case load h pt of
        Inl e \<Rightarrow> Some (Inl e)
      | Inr n \<Rightarrow> if link n \<noteq> None then delete_beg_csll_walk h (link n) else Some (Inr pt))"

declare delete_beg_csll_walk.simps [code]

definition delete_beg_csll :: "heap \<Rightarrow> ptr \<Rightarrow> (fault + heap \<times> ptr \<times> event list) option" where
  "delete_beg_csll h start =
     (case start of
        None \<Rightarrow> Some (Inr (h, start, [Underflow]))
      | Some a \<Rightarrow>
          (case delete_beg_csll_walk h start of
             None \<Rightarrow> None
           | Some (Inl e) \<Rightarrow> Some (Inl e)
           | Some (Inr pt) \<Rightarrow>
               Some (seq (load h start) (\<lambda>s.
                     seq (store h pt (\<lambda>c. c\<lparr>link := link s\<rparr>)) (\<lambda>h1.
                     seq (load h1 start) (\<lambda>s1.
                     Inr (h1, start, [Deleted (info s1)])))))))"

text \<open>
  \<^verbatim>\<open>delete_end\<close>: the loop
  \<^verbatim>\<open>while(ptr->link!=start){ prev=ptr; ptr=ptr->link; }\<close> assigns
  \<^verbatim>\<open>prev\<close>, which has no value before; then \<^verbatim>\<open>prev->link=start\<close>,
  the value is printed and \<^verbatim>\<open>ptr\<close> is freed.
\<close>

partial_function (option) delete_end_csll_walk ::
  "heap \<Rightarrow> ptr \<Rightarrow> ptr \<Rightarrow> lvar \<Rightarrow> (fault + ptr \<times> lvar) option" where
  "delete_end_csll_walk h start pt pv =
     (case load h pt of
        Inl e \<Rightarrow> Some (Inl e)
      | Inr n \<Rightarrow>
          if link n \<noteq> start then delete_end_csll_walk h start (link n) (Val pt)
          else Some (Inr (pt, pv)))"

declare delete_end_csll_walk.simps [code]

definition delete_end_csll :: "heap \<Rightarrow> ptr \<Rightarrow> (fault + heap \<times> ptr \<times> event list) option" where
  "delete_end_csll h start =
     (case start of
        None \<Rightarrow> Some (Inr (h, start, [Underflow]))
      | Some a \<Rightarrow>
          (case delete_end_csll_walk h start start Uninit of
             None \<Rightarrow> None
           | Some (Inl e) \<Rightarrow> Some (Inl e)
           | Some (Inr (pt, pv)) \<Rightarrow>
               (case pv of
                  Uninit \<Rightarrow> Some (Inl UninitRead)
                | Val p \<Rightarrow>
                    (case pt of
                       None \<Rightarrow> Some (Inl NullDeref)
                     | Some b \<Rightarrow>
                         Some (seq (store h p (\<lambda>c. c\<lparr>link := start\<rparr>)) (\<lambda>h1.
                               seq (load h1 pt) (\<lambda>n.
                               Inr (h1(b := None), start, [Deleted (info n)]))))))))"

text \<open>
  \<^verbatim>\<open>traverse\<close> prints the first cell and then walks until the pointer
  equals \<^verbatim>\<open>start\<close> again.  The result is the list of the values printed.
\<close>

partial_function (option) traverse_csll_loop ::
  "heap \<Rightarrow> ptr \<Rightarrow> ptr \<Rightarrow> cint list \<Rightarrow> (fault + cint list) option" where
  "traverse_csll_loop h start pt out =
     (if pt \<noteq> start then
        (case load h pt of
           Inl e \<Rightarrow> Some (Inl e)
         | Inr n \<Rightarrow> traverse_csll_loop h start (link n) (out @ [info n]))
      else Some (Inr out))"

declare traverse_csll_loop.simps [code]

definition traverse_csll :: "heap \<Rightarrow> ptr \<Rightarrow> (fault + cint list) option" where
  "traverse_csll h start =
     (if start = None then Some (Inr [])
      else
        (case load h start of
           Inl e \<Rightarrow> Some (Inl e)
         | Inr n \<Rightarrow> traverse_csll_loop h start (link n) [info n]))"


section \<open>Singly linked list: \<^verbatim>\<open>menu_linked.c\<close>\<close>

partial_function (option) traversal_loop ::
  "heap \<Rightarrow> ptr \<Rightarrow> cint list \<Rightarrow> (fault + cint list) option" where
  "traversal_loop h pt out =
     (if pt \<noteq> None then
        (case load h pt of
           Inl e \<Rightarrow> Some (Inl e)
         | Inr n \<Rightarrow> traversal_loop h (link n) (out @ [info n]))
      else Some (Inr out))"

declare traversal_loop.simps [code]

definition traversal :: "heap \<Rightarrow> ptr \<Rightarrow> (fault + cint list) option" where
  "traversal h start = traversal_loop h start []"

definition delete_beg_sll :: "heap \<Rightarrow> ptr \<Rightarrow> fault + heap \<times> ptr \<times> event list" where
  "delete_beg_sll h start =
     (case start of
        None \<Rightarrow> Inr (h, start, [Underflow])
      | Some a \<Rightarrow>
          seq (load h start) (\<lambda>n.
          Inr (h(a := None), link n, [Deleted (info n)])))"

text \<open>
  \<^verbatim>\<open>delete_end\<close>: \<^verbatim>\<open>ptr\<close> and \<^verbatim>\<open>prev\<close> both start at
  \<^verbatim>\<open>start\<close>;
  \<^verbatim>\<open>while(ptr->link!=NULL){ prev=ptr; ptr=ptr->link; }\<close>, then the value is
  printed, \<^verbatim>\<open>prev->link=NULL\<close>, \<^verbatim>\<open>ptr\<close> is freed and \<^verbatim>\<open>start\<close>
  is returned.
\<close>

partial_function (option) delete_end_sll_walk ::
  "heap \<Rightarrow> ptr \<Rightarrow> ptr \<Rightarrow> (fault + ptr \<times> ptr) option" where
  "delete_end_sll_walk h pt pv =
     (case load h pt of
        Inl e \<Rightarrow> Some (Inl e)
      | Inr n \<Rightarrow>
          if link n \<noteq> None then delete_end_sll_walk h (link n) pt
          else Some (Inr (pt, pv)))"

declare delete_end_sll_walk.simps [code]

definition delete_end_sll :: "heap \<Rightarrow> ptr \<Rightarrow> (fault + heap \<times> ptr \<times> event list) option" where
  "delete_end_sll h start =
     (case start of
        None \<Rightarrow> Some (Inr (h, start, [Underflow]))
      | Some a \<Rightarrow>
          (case delete_end_sll_walk h start start of
             None \<Rightarrow> None
           | Some (Inl e) \<Rightarrow> Some (Inl e)
           | Some (Inr (pt, pv)) \<Rightarrow>
               (case pt of
                  None \<Rightarrow> Some (Inl NullDeref)
                | Some b \<Rightarrow>
                    Some (seq (load h pt) (\<lambda>n.
                          seq (store h pv (\<lambda>c. c\<lparr>link := None\<rparr>)) (\<lambda>h1.
                          Inr (h1(b := None), start, [Deleted (info n)])))))))"

text \<open>
  \<^verbatim>\<open>reversal\<close>: \<^verbatim>\<open>while(ptr!=NULL){temp=ptr->link; ptr->link=prev; prev=ptr; ptr=temp;}\<close>
  and the last \<^verbatim>\<open>prev\<close> is the new \<^verbatim>\<open>start\<close>.
\<close>

partial_function (option) reversal_loop ::
  "heap \<Rightarrow> ptr \<Rightarrow> ptr \<Rightarrow> (fault + heap \<times> ptr) option" where
  "reversal_loop h pt pv =
     (if pt \<noteq> None then
        (case seq (load h pt) (\<lambda>n.
              seq (store h pt (\<lambda>c. c\<lparr>link := pv\<rparr>)) (\<lambda>h1. Inr (h1, link n))) of
           Inl e \<Rightarrow> Some (Inl e)
         | Inr (h1, temp) \<Rightarrow> reversal_loop h1 temp pt)
      else Some (Inr (h, pv)))"

declare reversal_loop.simps [code]

definition reversal :: "heap \<Rightarrow> ptr \<Rightarrow> (fault + heap \<times> ptr) option" where
  "reversal h start = reversal_loop h start None"


section \<open>Stack: \<^verbatim>\<open>linked_stack_menu.c\<close>\<close>

definition push :: "heap \<Rightarrow> ptr \<Rightarrow> ptr \<Rightarrow> cint \<Rightarrow> fault + heap \<times> ptr \<times> event list" where
  "push h tp new item =
     (case new of
        None \<Rightarrow> Inr (h, tp, [Overflow])
      | Some nw \<Rightarrow>
          (let h1 = h(nw \<mapsto> \<lparr>info = item, link = None\<rparr>) in
           if tp = None then Inr (h1, new, [])
           else
             seq (store h1 new (\<lambda>c. c\<lparr>link := tp\<rparr>)) (\<lambda>h2.
             Inr (h2, new, []))))"

definition pop :: "heap \<Rightarrow> ptr \<Rightarrow> fault + heap \<times> ptr \<times> event list" where
  "pop h tp =
     (case tp of
        None \<Rightarrow> Inr (h, tp, [Underflow])
      | Some a \<Rightarrow>
          seq (load h tp) (\<lambda>n.
          Inr (h(a := None), link n, [Deleted (info n)])))"


section \<open>Queue: \<^verbatim>\<open>linked_queue_menu.c\<close>\<close>

text \<open>
  The queue is the pair of pointers \<^verbatim>\<open>front\<close> and \<^verbatim>\<open>rear\<close> that
  \<^verbatim>\<open>main\<close> passes by address.  \<^verbatim>\<open>dequeue\<close> frees the removed cell
  only when it is not the last one.
\<close>

definition enqueue ::
  "heap \<Rightarrow> ptr \<Rightarrow> ptr \<Rightarrow> ptr \<Rightarrow> cint \<Rightarrow> fault + heap \<times> ptr \<times> ptr \<times> event list" where
  "enqueue h front rear new item =
     (case new of
        None \<Rightarrow> Inr (h, front, rear, [Overflow])
      | Some nw \<Rightarrow>
          (let h1 = h(nw \<mapsto> \<lparr>info = item, link = None\<rparr>) in
           if front = None \<and> rear = None then Inr (h1, new, new, [])
           else
             seq (store h1 rear (\<lambda>c. c\<lparr>link := new\<rparr>)) (\<lambda>h2.
             Inr (h2, front, new, []))))"

definition dequeue :: "heap \<Rightarrow> ptr \<Rightarrow> ptr \<Rightarrow> fault + heap \<times> ptr \<times> ptr \<times> event list" where
  "dequeue h front rear =
     (if front = None \<and> rear = None then Inr (h, front, rear, [Underflow])
      else if front = rear then Inr (h, None, None, [])
      else
        (case front of
           None \<Rightarrow> Inl NullDeref
         | Some a \<Rightarrow>
             seq (load h front) (\<lambda>n.
             Inr (h(a := None), link n, rear, []))))"

text \<open>
  The queue invariant of the specification: the cells \<open>as\<close> are linked from
  \<^verbatim>\<open>front\<close> to \<^verbatim>\<open>NULL\<close>, and \<^verbatim>\<open>rear\<close> is the last of them, or
  \<^verbatim>\<open>NULL\<close> when there is none.
\<close>

definition queue_inv :: "heap \<Rightarrow> ptr \<Rightarrow> ptr \<Rightarrow> addr list \<Rightarrow> bool" where
  "queue_inv h front rear as =
     (chain link h front as \<and> rear = (if as = [] then None else Some (last as)))"


section \<open>Concrete heaps used below\<close>

definition dll_one :: dheap where
  "dll_one = [0 \<mapsto> \<lparr>dnode.info = 5, prev = None, next = None\<rparr>]"

definition dll_two :: dheap where
  "dll_two = [0 \<mapsto> \<lparr>dnode.info = 1, prev = None, next = Some 1\<rparr>,
              1 \<mapsto> \<lparr>dnode.info = 2, prev = Some 0, next = None\<rparr>]"

definition cdll_one :: dheap where
  "cdll_one = [0 \<mapsto> \<lparr>dnode.info = 5, prev = Some 0, next = Some 0\<rparr>]"

definition sll_one :: heap where
  "sll_one = [0 \<mapsto> \<lparr>info = 5, link = None\<rparr>]"

definition csll_one :: heap where
  "csll_one = [0 \<mapsto> \<lparr>info = 5, link = Some 0\<rparr>]"

definition csll_two :: heap where
  "csll_two = [0 \<mapsto> \<lparr>info = 1, link = Some 1\<rparr>, 1 \<mapsto> \<lparr>info = 2, link = Some 0\<rparr>]"

definition sll_three :: heap where
  "sll_three = [0 \<mapsto> \<lparr>info = 1, link = Some 1\<rparr>, 1 \<mapsto> \<lparr>info = 2, link = Some 2\<rparr>,
                2 \<mapsto> \<lparr>info = 3, link = None\<rparr>]"

definition queue_two :: heap where
  "queue_two = [0 \<mapsto> \<lparr>info = 1, link = Some 1\<rparr>, 1 \<mapsto> \<lparr>info = 2, link = None\<rparr>]"

definition sll_four :: lheap where
  "sll_four = [0 \<mapsto> \<lparr>data = 23, next = Some 1\<rparr>, 1 \<mapsto> \<lparr>data = 67, next = Some 2\<rparr>,
               2 \<mapsto> \<lparr>data = 89, next = Some 3\<rparr>, 3 \<mapsto> \<lparr>data = 99, next = None\<rparr>]"


section \<open>Notions used to state the properties\<close>

text \<open>
  The values stored in the cells \<open>as\<close>, in this order.
\<close>

definition infos :: "heap \<Rightarrow> addr list \<Rightarrow> cint list" where
  "infos h as = map (\<lambda>a. case h a of None \<Rightarrow> 0 | Some n \<Rightarrow> info n) as"

text \<open>
  In a list of distinct cells: the link a cell receives when the list is
  reversed onto \<open>q\<close> (its predecessor, \<open>q\<close> for the first cell), and the
  link it has in a list that ends at \<^verbatim>\<open>NULL\<close> (its successor).
\<close>

fun before :: "addr list \<Rightarrow> ptr \<Rightarrow> addr \<Rightarrow> ptr" where
  "before [] q x = q"
| "before (a # as) q x = (if x = a then q else before as (Some a) x)"

fun after :: "addr list \<Rightarrow> addr \<Rightarrow> ptr" where
  "after [] x = None"
| "after (a # as) x =
     (if x = a then (case as of [] \<Rightarrow> None | b # bs \<Rightarrow> Some b) else after as x)"

text \<open>The cell at \<open>x\<close> holds the value \<open>v\<close>; a list without its first element that satisfies \<open>P\<close>.\<close>

definition holds :: "lheap \<Rightarrow> cint \<Rightarrow> addr \<Rightarrow> bool" where
  "holds h v x = (case h x of None \<Rightarrow> False | Some n \<Rightarrow> data n = v)"

fun drop_first :: "('a \<Rightarrow> bool) \<Rightarrow> 'a list \<Rightarrow> 'a list" where
  "drop_first P [] = []"
| "drop_first P (x # xs) = (if P x then xs else x # drop_first P xs)"


section \<open>Paths in the heap\<close>

lemma path_append:
  "path nxt h p (as @ bs) q = (\<exists>m. path nxt h p as m \<and> path nxt h m bs q)"
  by (induction as arbitrary: p) (auto split: option.splits)

lemma path_upd_other:
  "a \<notin> set as \<Longrightarrow> path nxt (h(a := v)) p as q = path nxt h p as q"
  by (induction as arbitrary: p) (auto split: option.splits)

lemma path_Cons_upd:
  "a \<noteq> l \<Longrightarrow> h a = Some c \<Longrightarrow> path nxt (h(l := v)) (nxt c) as q \<Longrightarrow>
   path nxt (h(l := v)) (Some a) (a # as) q"
  by simp

text \<open>Every cell of a path is allocated, and its successor is the end of the path or on it.\<close>

lemma path_cell:
  "path nxt h p as q \<Longrightarrow> x \<in> set as \<Longrightarrow>
     \<exists>n. h x = Some n \<and> (nxt n = q \<or> (\<exists>y\<in>set as. nxt n = Some y))"
proof (induction as arbitrary: p)
  case Nil
  then show ?case by simp
next
  case (Cons a as)
  from Cons.prems(1) obtain n where n: "p = Some a" "h a = Some n" "path nxt h (nxt n) as q"
    by (auto split: option.splits)
  show ?case
  proof (cases "x = a")
    case True
    show ?thesis
    proof (cases as)
      case Nil
      with n True show ?thesis by simp
    next
      case (Cons b bs)
      with n True show ?thesis by (auto split: option.splits)
    qed
  next
    case False
    with Cons.prems(2) have "x \<in> set as" by simp
    from Cons.IH[OF n(3) this] show ?thesis by auto
  qed
qed

lemma chain_cell: "chain nxt h p as \<Longrightarrow> x \<in> set as \<Longrightarrow> \<exists>n. h x = Some n"
  using path_cell[of nxt h p as None x] by (auto simp: chain_def)

text \<open>A pointer is the entry of at most one list, and a list visits no cell twice.\<close>

lemma chain_unique:
  "chain nxt h p as \<Longrightarrow> chain nxt h p bs \<Longrightarrow> as = bs"
  unfolding chain_def
proof (induction as arbitrary: p bs)
  case Nil
  then show ?case by (cases bs) auto
next
  case (Cons a as)
  then show ?case by (cases bs) (auto split: option.splits)
qed

lemma chain_distinct:
  "chain nxt h p as \<Longrightarrow> distinct as"
proof (induction as arbitrary: p)
  case Nil
  then show ?case by simp
next
  case (Cons a as)
  from Cons.prems obtain n where n: "h a = Some n" "chain nxt h (nxt n) as"
    by (auto simp: chain_def split: option.splits)
  have "a \<notin> set as"
  proof
    assume "a \<in> set as"
    then obtain xs ys where split: "as = xs @ a # ys" by (auto dest: split_list)
    with n have "chain nxt h (nxt n) ys"
      by (auto simp: chain_def path_append)
    with n(2) have "as = ys" by (rule chain_unique)
    with split show False by simp
  qed
  with Cons.IH[OF n(2)] show ?case by simp
qed

lemma ring_closed:
  assumes "ring nxt h (Some a) as"
  shows "a \<in> set as \<and> (\<forall>x\<in>set as. \<exists>n. h x = Some n \<and> (\<exists>y\<in>set as. nxt n = Some y))"
proof -
  from assms obtain bs where as: "as = a # bs" and p: "path nxt h (Some a) as (Some a)"
    by (cases as) (auto simp: ring_def)
  have "\<exists>n. h x = Some n \<and> (\<exists>y\<in>set as. nxt n = Some y)" if "x \<in> set as" for x
    using path_cell[OF p that] as by auto
  with as show ?thesis by simp
qed

section \<open>Circular lists: the ring invariant\<close>

lemma insert_beg_cdll_empty:
  "insert_beg_cdll h None (Some nw) item =
     Inr (h(nw \<mapsto> \<lparr>dnode.info = item, prev = None, next = None\<rparr>), Some nw, [])"
  by (simp add: insert_beg_cdll_def)

lemma insert_end_cdll_empty:
  "insert_end_cdll h None (Some nw) item =
     Inr (h(nw \<mapsto> \<lparr>dnode.info = item, prev = None, next = None\<rparr>), Some nw, [])"
  by (simp add: insert_end_cdll_def)

lemma create_cdll_ring:
  "create_cdll h start (Some nw) item = (h', start', ev) \<Longrightarrow> ring dnode.next h' start' [nw]"
  by (auto simp: create_cdll_def ring_def)

lemma cdll_seeded_scenario:
  "\<exists>h1 h2 h3. create_cdll Map.empty None (Some 0) 5 = (h1, Some 0, [])
     \<and> insert_beg_cdll h1 (Some 0) (Some 1) 1 = Inr (h2, Some 1, [])
     \<and> insert_end_cdll h2 (Some 1) (Some 2) 9 = Inr (h3, Some 1, [])
     \<and> traverse_cdll h3 (Some 1) = Some (Inr ([1, 5, 9], []))
     \<and> ring dnode.next h3 (Some 1) [1, 0, 2]"
  by (simp add: create_cdll_def insert_beg_cdll_def insert_end_cdll_def traverse_cdll_def
      traverse_cdll_loop.simps load_def store_def ring_def Let_def)

text \<open>
  C1 (the code departs from the claim).  The claim: after any sequence of
  create, insert and delete operations on a circular list, following
  \<^verbatim>\<open>next\<close> from the head \<open>size\<close> times returns to the head, and
  inserting into an empty circular doubly linked list yields a one-cell ring
  whose \<^verbatim>\<open>next\<close> and \<^verbatim>\<open>prev\<close> point to the cell itself.
  The code: \<^verbatim>\<open>insert_beg\<close> and \<^verbatim>\<open>insert_end\<close> of \<^verbatim>\<open>CDLL.c\<close> leave
  both pointers of the new cell \<^verbatim>\<open>NULL\<close> when the list is empty, so one step
  from the head arrives at \<^verbatim>\<open>NULL\<close>, where the \<^verbatim>\<open>traverse\<close> that
  \<^verbatim>\<open>main\<close> calls next dereferences it; \<^verbatim>\<open>create_cdll\<close> does build
  the self-ring.  \<^verbatim>\<open>create_csll\<close>, called by \<^verbatim>\<open>main\<close> with \<^verbatim>\<open>NULL\<close>,
  leaves the link of its cell \<^verbatim>\<open>NULL\<close> as well.
\<close>

theorem cdll_insert_into_empty_is_no_ring:
  "insert_beg_cdll Map.empty None (Some 0) 7 =
     Inr ([0 \<mapsto> \<lparr>dnode.info = 7, prev = None, next = None\<rparr>], Some 0, [])
   \<and> insert_end_cdll Map.empty None (Some 0) 7 =
     Inr ([0 \<mapsto> \<lparr>dnode.info = 7, prev = None, next = None\<rparr>], Some 0, [])
   \<and> follow dnode.next [0 \<mapsto> \<lparr>dnode.info = 7, prev = None, next = None\<rparr>] (Some 0) 1 = None
   \<and> \<not> ring dnode.next [0 \<mapsto> \<lparr>dnode.info = 7, prev = None, next = None\<rparr>] (Some 0) [0]
   \<and> traverse_cdll [0 \<mapsto> \<lparr>dnode.info = 7, prev = None, next = None\<rparr>] (Some 0) =
     Some (Inl NullDeref)
   \<and> create_cdll Map.empty None (Some 0) 7 =
     ([0 \<mapsto> \<lparr>dnode.info = 7, prev = Some 0, next = Some 0\<rparr>], Some 0, [])
   \<and> create_csll Map.empty None (Some 0) 7 = ([0 \<mapsto> \<lparr>info = 7, link = None\<rparr>], Some 0, [])
   \<and> follow link [0 \<mapsto> \<lparr>info = 7, link = None\<rparr>] (Some 0) 1 = None"
  by (simp add: insert_beg_cdll_def insert_end_cdll_def create_cdll_def create_csll_def ring_def
      traverse_cdll_def traverse_cdll_loop.simps load_def)


section \<open>Deleting from an empty container\<close>

lemma delete_on_empty_underflow:
  "delete_beg_cdll dh None = Inr (dh, None, [Underflow])"
  "delete_beg_dll dh None = Inr (dh, None, [Underflow])"
  "delete_end_dll dh None = Some (Inr (dh, None, [Underflow]))"
  "delete_beg_csll h None = Some (Inr (h, None, [Underflow]))"
  "delete_end_csll h None = Some (Inr (h, None, [Underflow]))"
  "delete_beg_sll h None = Inr (h, None, [Underflow])"
  "delete_end_sll h None = Some (Inr (h, None, [Underflow]))"
  "pop h None = Inr (h, None, [Underflow])"
  "dequeue h None None = Inr (h, None, None, [Underflow])"
  by (simp_all add: delete_beg_cdll_def delete_beg_dll_def delete_end_dll_def delete_beg_csll_def
      delete_end_csll_def delete_beg_sll_def delete_end_sll_def pop_def dequeue_def)

text \<open>
  C2 (the code departs from the claim).  The claim: every delete operation on
  an empty container signals Underflow, changes nothing and returns to the
  menu.  The code: \<^verbatim>\<open>delete_end\<close> of \<^verbatim>\<open>CDLL.c\<close> changes nothing and
  returns, but the message it prints for the empty ring is \<^verbatim>\<open>OVERFLOW\<close>;
  \<^verbatim>\<open>delete_beg\<close> of the same file and the eight delete operations of the
  other menus print \<^verbatim>\<open>UNDERFLOW\<close> and change nothing
  (lemma \<open>delete_on_empty_underflow\<close>).
\<close>

theorem cdll_delete_end_on_empty_prints_overflow:
  "delete_end_cdll h None = Inr (h, None, [Overflow])"
  by (simp add: delete_end_cdll_def)


section \<open>Deleting the only element\<close>

lemma one_element_deletes_that_empty:
  "pop sll_one (Some 0) = Inr (Map.empty, None, [Deleted 5])"
  "delete_beg_sll sll_one (Some 0) = Inr (Map.empty, None, [Deleted 5])"
  "dequeue sll_one (Some 0) (Some 0) = Inr (sll_one, None, None, [])"
  by (simp_all add: pop_def delete_beg_sll_def dequeue_def load_def sll_one_def)

lemma one_element_deletes_that_do_not:
  "delete_end_sll sll_one (Some 0) = Some (Inr (Map.empty, Some 0, [Deleted 5]))"
  "delete_end_dll dll_one (Some 0) = Some (Inl UninitRead)"
  "delete_end_csll csll_one (Some 0) = Some (Inl UninitRead)"
  by (simp_all add: delete_end_sll_def delete_end_sll_walk.simps delete_end_dll_def
      delete_end_dll_walk.simps delete_end_csll_def delete_end_csll_walk.simps
      load_def store_def sll_one_def dll_one_def csll_one_def)

text \<open>
  C3 (the code departs from the claim).  The claim: on a container of one
  element every delete operation succeeds and leaves the empty container, and
  no absent reference is dereferenced.  The code: \<^verbatim>\<open>delete_beg\<close> of
  \<^verbatim>\<open>menu_DLL.c\<close> writes \<^verbatim>\<open>start->prev\<close> after \<^verbatim>\<open>start\<close> has become
  \<^verbatim>\<open>NULL\<close>; \<^verbatim>\<open>delete_beg\<close> and \<^verbatim>\<open>delete_end\<close> of \<^verbatim>\<open>CDLL.c\<close> free
  the only cell and return its address as the new \<^verbatim>\<open>start\<close>.  The stack,
  the queue and \<^verbatim>\<open>delete_beg\<close> of \<^verbatim>\<open>menu_linked.c\<close> do reach the empty
  container (lemma \<open>one_element_deletes_that_empty\<close>); the three other
  \<^verbatim>\<open>delete_end\<close> functions do not either
  (lemma \<open>one_element_deletes_that_do_not\<close>).
\<close>

theorem dll_delete_beg_of_single_cell_faults:
  "delete_beg_dll dll_one (Some 0) = Inl NullDeref
   \<and> delete_beg_cdll cdll_one (Some 0) = Inr (Map.empty, Some 0, [Deleted 5])
   \<and> delete_end_cdll cdll_one (Some 0) = Inr (Map.empty, Some 0, [Deleted 5])"
  by (simp add: delete_beg_dll_def delete_beg_cdll_def delete_end_cdll_def dll_one_def
      cdll_one_def load_def store_def)


section \<open>Circular singly linked list: inserting at the front\<close>

text \<open>
  C4 (the code departs from the claim).  The claim: on a ring that holds
  \<open>v1, ..., vn\<close>, \<^verbatim>\<open>insert_beg\<close> makes the new cell the head, links it to
  the old head, links the old last cell to it, and the traversal becomes
  \<open>x, v1, ..., vn\<close>.  The code: the three assignments sit inside the
  \<^verbatim>\<open>for\<close> loop that was meant to find the last cell.  On the ring
  \<open>1, 2\<close> the loop leaves the new cell linked to itself and returns it, so
  the traversal prints \<open>9\<close> alone; on a ring of one cell the loop body never
  runs and the ring is returned as it was.
\<close>

theorem csll_insert_beg_drops_the_ring:
  "ring link csll_two (Some 0) [0, 1]
   \<and> traverse_csll csll_two (Some 0) = Some (Inr [1, 2])
   \<and> insert_beg_csll csll_two (Some 0) (Some 2) 9 =
       Some (Inr ([0 \<mapsto> \<lparr>info = 1, link = Some 2\<rparr>, 1 \<mapsto> \<lparr>info = 2, link = Some 0\<rparr>,
                   2 \<mapsto> \<lparr>info = 9, link = Some 2\<rparr>], Some 2, []))
   \<and> traverse_csll [0 \<mapsto> \<lparr>info = 1, link = Some 2\<rparr>, 1 \<mapsto> \<lparr>info = 2, link = Some 0\<rparr>,
                      2 \<mapsto> \<lparr>info = 9, link = Some 2\<rparr>] (Some 2) = Some (Inr [9])
   \<and> ring link csll_one (Some 0) [0]
   \<and> insert_beg_csll csll_one (Some 0) (Some 1) 9 =
       Some (Inr ([0 \<mapsto> \<lparr>info = 5, link = Some 0\<rparr>, 1 \<mapsto> \<lparr>info = 9, link = None\<rparr>], Some 0, []))
   \<and> traverse_csll [0 \<mapsto> \<lparr>info = 5, link = Some 0\<rparr>, 1 \<mapsto> \<lparr>info = 9, link = None\<rparr>] (Some 0) =
       Some (Inr [5])"
  by (simp add: ring_def csll_two_def csll_one_def insert_beg_csll_def insert_beg_csll_loop.simps
      traverse_csll_def traverse_csll_loop.simps load_def store_def fun_upd_twist)


section \<open>Circular singly linked list: deleting at the front\<close>

text \<open>
  A walk that starts inside a set of allocated cells whose links stay in the
  set never finds the \<^verbatim>\<open>NULL\<close> link it is looking for.
\<close>

lemma delete_beg_csll_walk_stays:
  assumes S: "\<forall>x\<in>S. \<exists>n. h x = Some n \<and> (\<exists>y\<in>S. link n = Some y)"
  shows "delete_beg_csll_walk g p = Some r \<Longrightarrow> g = h \<longrightarrow> p \<notin> Some ` S"
proof (erule delete_beg_csll_walk.raw_induct[rotated])
  fix w :: "heap \<Rightarrow> ptr \<Rightarrow> (fault + ptr) option" and g pt res
  assume IH: "\<And>g pt res. w g pt = Some res \<Longrightarrow> g = h \<longrightarrow> pt \<notin> Some ` S"
    and body: "(case load g pt of Inl e \<Rightarrow> Some (Inl e)
      | Inr n \<Rightarrow> if link n \<noteq> None then w g (link n) else Some (Inr pt)) = Some res"
  show "g = h \<longrightarrow> pt \<notin> Some ` S"
  proof (intro impI notI)
    assume g: "g = h" and "pt \<in> Some ` S"
    then obtain a where a: "pt = Some a" "a \<in> S" by blast
    with S obtain n y where n: "h a = Some n" "y \<in> S" "link n = Some y" by blast
    with body a g have "w h (Some y) = Some res" by (simp add: load_def)
    from IH[OF this] n(2) show False by blast
  qed
qed

lemma delete_beg_csll_walk_diverges:
  assumes "a \<in> S" and "\<forall>x\<in>S. \<exists>n. h x = Some n \<and> (\<exists>y\<in>S. link n = Some y)"
  shows "delete_beg_csll_walk h (Some a) = None"
proof (cases "delete_beg_csll_walk h (Some a)")
  case None
  then show ?thesis .
next
  case (Some r)
  from delete_beg_csll_walk_stays[OF assms(2) Some] assms(1) show ?thesis by blast
qed

text \<open>
  C5 (the code departs from the claim).  The claim: on a well-formed non-empty
  ring \<^verbatim>\<open>delete_beg\<close> terminates, removes the old head, links the last
  cell to the new head and returns the new head.  The code: the walk tests
  \<^verbatim>\<open>ptr->link!=NULL\<close>, and no cell of a ring has a \<^verbatim>\<open>NULL\<close> link, so
  on every ring the call never returns.
\<close>

theorem csll_delete_beg_never_returns:
  "ring link h (Some a) as \<Longrightarrow> delete_beg_csll h (Some a) = None"
proof -
  assume "ring link h (Some a) as"
  then have "a \<in> set as \<and> (\<forall>x\<in>set as. \<exists>n. h x = Some n \<and> (\<exists>y\<in>set as. link n = Some y))"
    by (rule ring_closed)
  then have "delete_beg_csll_walk h (Some a) = None"
    by (intro delete_beg_csll_walk_diverges[of a "set as"]) auto
  then show ?thesis by (simp add: delete_beg_csll_def)
qed

theorem csll_delete_beg_never_returns_witness:
  "ring link csll_one (Some 0) [0] \<and> delete_beg_csll csll_one (Some 0) = None"
proof -
  have r: "ring link csll_one (Some 0) [0]"
    by (simp add: ring_def csll_one_def)
  from csll_delete_beg_never_returns[OF r] r show ?thesis by simp
qed


section \<open>Doubly linked list: inserting at a position\<close>

lemma insert_LOC_first_position:
  "loc \<le> 1 \<Longrightarrow> h s = Some c \<Longrightarrow> nw \<noteq> s \<Longrightarrow>
   insert_LOC h (Some s) (Some nw) item loc =
     Some (Inr (h(nw \<mapsto> \<lparr>dnode.info = item, prev = None, next = Some s\<rparr>,
                  s \<mapsto> c\<lparr>prev := Some nw\<rparr>), Some nw, []))"
  by (simp add: insert_LOC_def insert_LOC_from_def insert_LOC_walk.simps store_def)

lemma insert_LOC_reads_unassigned:
  "start \<noteq> None \<Longrightarrow> 1 < loc \<Longrightarrow> insert_LOC h start (Some nw) item loc = Some (Inl UninitRead)"
  by (simp add: insert_LOC_def insert_LOC_from_def insert_LOC_walk.simps Let_def)

text \<open>
  Whatever the first read of \<^verbatim>\<open>ptr\<close> produces, a call that returns on a
  non-empty list has made the new cell the head and has printed nothing:
  \<^verbatim>\<open>ptr1\<close> is still \<^verbatim>\<open>start\<close> after the walk.
\<close>

lemma insert_LOC_from_only_head:
  "insert_LOC_from pt0 h (Some s) (Some nw) item loc = Some (Inr (h', st, ev)) \<Longrightarrow>
   st = Some nw \<and> ev = []"
  apply (simp add: insert_LOC_from_def Let_def split: option.splits sum.splits)
  apply (simp add: store_def split: if_splits option.splits)
  done

text \<open>
  C6 (the code departs from the claim).  The claim: \<^verbatim>\<open>insert_LOC\<close> makes
  the new cell the head exactly when \<open>loc\<close> is the first position, splices it
  between the cells at positions \<open>loc - 1\<close> and \<open>loc\<close> when \<open>1 < loc \<le> n\<close>,
  and signals LocationNotFound, leaving the list unchanged, when \<open>loc\<close> walks
  off the end.  The code: for \<open>1 < loc\<close> the loop test reads the pointer
  \<^verbatim>\<open>ptr\<close> before anything was assigned to it; and as the loop never moves
  \<^verbatim>\<open>ptr1\<close>, a run that survives the read inserts at the head for every
  \<open>loc\<close> and cannot print the message.  The first position works
  (lemma \<open>insert_LOC_first_position\<close>).
\<close>

theorem dll_insert_LOC_at_second_position:
  "chain dnode.next dll_two (Some 0) [0, 1]
   \<and> insert_LOC dll_two (Some 0) (Some 2) 9 2 = Some (Inl UninitRead)
   \<and> insert_LOC dll_two (Some 0) (Some 2) 9 3 = Some (Inl UninitRead)
   \<and> insert_LOC_from (Val (Some 1)) dll_two (Some 0) (Some 2) 9 2 =
       Some (Inr ([0 \<mapsto> \<lparr>dnode.info = 1, prev = Some 2, next = Some 1\<rparr>,
                   1 \<mapsto> \<lparr>dnode.info = 2, prev = Some 0, next = None\<rparr>,
                   2 \<mapsto> \<lparr>dnode.info = 9, prev = None, next = Some 0\<rparr>], Some 2, []))
   \<and> insert_LOC_from (Val (Some 1)) dll_two (Some 0) (Some 2) 9 3 =
       Some (Inr ([0 \<mapsto> \<lparr>dnode.info = 1, prev = Some 2, next = Some 1\<rparr>,
                   1 \<mapsto> \<lparr>dnode.info = 2, prev = Some 0, next = None\<rparr>,
                   2 \<mapsto> \<lparr>dnode.info = 9, prev = None, next = Some 0\<rparr>], Some 2, []))"
  by (simp add: chain_def dll_two_def insert_LOC_def insert_LOC_from_def insert_LOC_walk.simps
      load_def store_def Let_def fun_upd_twist)


section \<open>Singly linked list: reversal\<close>

lemma traversal_loop_chain:
  "chain link h p as \<Longrightarrow> traversal_loop h p out = Some (Inr (out @ infos h as))"
proof (induction as arbitrary: p out)
  case Nil
  then show ?case by (simp add: chain_def infos_def traversal_loop.simps)
next
  case (Cons a as)
  from Cons.prems obtain n where n: "p = Some a" "h a = Some n" "chain link h (link n) as"
    by (auto simp: chain_def split: option.splits)
  from Cons.IH[OF n(3), of "out @ [info n]"] n(1,2) show ?case
    by (subst traversal_loop.simps) (simp add: load_def infos_def)
qed

lemma chain_link_after:
  "chain link h p as \<Longrightarrow> x \<in> set as \<Longrightarrow> \<exists>n. h x = Some n \<and> link n = after as x"
proof (induction as arbitrary: p)
  case Nil
  then show ?case by simp
next
  case (Cons a as)
  from Cons.prems(1) obtain n where n: "p = Some a" "h a = Some n" "chain link h (link n) as"
    by (auto simp: chain_def split: option.splits)
  show ?case
  proof (cases "x = a")
    case True
    with n show ?thesis by (cases as) (auto simp: chain_def split: option.splits)
  next
    case False
    with Cons.prems(2) Cons.IH[OF n(3)] show ?thesis by simp
  qed
qed

lemma before_snoc_old: "x \<in> set xs \<Longrightarrow> before (xs @ [a]) q x = before xs q x"
  by (induction xs arbitrary: q) auto

lemma before_snoc_new:
  "a \<notin> set xs \<Longrightarrow> before (xs @ [a]) q a = (if xs = [] then q else Some (last xs))"
  by (induction xs arbitrary: q) auto

lemma before_rev_after:
  "distinct as \<Longrightarrow> x \<in> set as \<Longrightarrow> before (rev as) None x = after as x"
proof (induction as)
  case Nil
  then show ?case by simp
next
  case (Cons a as)
  show ?case
  proof (cases "x = a")
    case True
    from Cons.prems have "a \<notin> set (rev as)" by simp
    then have "before (rev as @ [a]) None a = (if rev as = [] then None else Some (last (rev as)))"
      by (rule before_snoc_new)
    with True show ?thesis by (cases as) simp_all
  next
    case False
    with Cons show ?thesis by (simp add: before_snoc_old)
  qed
qed

text \<open>
  The loop, started on the list \<open>as\<close> with the reversed part \<open>bs\<close> behind
  it: it returns, the result is the list \<open>rev as @ bs\<close>, and every cell of
  \<open>as\<close> has kept its value and received its predecessor as link.
\<close>

lemma reversal_loop_spec:
  "chain link h p as \<Longrightarrow> chain link h q bs \<Longrightarrow> set as \<inter> set bs = {} \<Longrightarrow>
   \<exists>h'. reversal_loop h p q = Some (Inr (h', if as = [] then q else Some (last as)))
       \<and> chain link h' (if as = [] then q else Some (last as)) (rev as @ bs)
       \<and> (\<forall>x. h' x = (if x \<in> set as
                        then map_option (\<lambda>n. n\<lparr>link := before as q x\<rparr>) (h x)
                        else h x))"
proof (induction as arbitrary: h p q bs)
  case Nil
  then show ?case by (simp add: chain_def reversal_loop.simps)
next
  case (Cons a as)
  from Cons.prems(1) obtain n where n: "p = Some a" "h a = Some n" "chain link h (link n) as"
    by (auto simp: chain_def split: option.splits)
  from chain_distinct[OF Cons.prems(1)] have a: "a \<notin> set as" by simp
  from Cons.prems(3) have b: "a \<notin> set bs" by simp
  let ?h1 = "h(a \<mapsto> n\<lparr>link := q\<rparr>)"
  have c1: "chain link ?h1 (link n) as"
    using n(3) a by (simp add: chain_def path_upd_other)
  have "path link ?h1 q bs None"
    using Cons.prems(2) b by (simp add: chain_def path_upd_other)
  then have c2: "chain link ?h1 (Some a) (a # bs)"
    by (simp add: chain_def)
  have d: "set as \<inter> set (a # bs) = {}"
    using Cons.prems(3) a by auto
  from Cons.IH[OF c1 c2 d] obtain h' where
    h': "reversal_loop ?h1 (link n) (Some a) = Some (Inr (h', if as = [] then Some a else Some (last as)))"
        "chain link h' (if as = [] then Some a else Some (last as)) (rev as @ a # bs)"
        "\<forall>x. h' x = (if x \<in> set as
                        then map_option (\<lambda>n. n\<lparr>link := before as (Some a) x\<rparr>) (?h1 x)
                        else ?h1 x)"
    by blast
  have step: "reversal_loop h p q = reversal_loop ?h1 (link n) (Some a)"
    using n(1,2) by (subst reversal_loop.simps) (simp add: load_def store_def)
  have "\<forall>x. h' x = (if x \<in> set (a # as)
                        then map_option (\<lambda>n. n\<lparr>link := before (a # as) q x\<rparr>) (h x)
                        else h x)"
    using h'(3) a n(2) by auto
  with h'(1,2) step show ?case by auto
qed

text \<open>
  C7.  For every singly linked list (a chain of cells from \<^verbatim>\<open>start\<close> to
  \<^verbatim>\<open>NULL\<close>, the non-empty ones among them), \<^verbatim>\<open>reversal\<close> returns; the
  traversal of its result prints the values of the list in reversed order; and
  reversing the result gives back the heap and the entry pointer the first
  call started from.
\<close>

theorem reversal_involution:
  assumes "chain link h start as"
  shows "\<exists>h1 s1 vs. traversal h start = Some (Inr vs)
     \<and> reversal h start = Some (Inr (h1, s1))
     \<and> traversal h1 s1 = Some (Inr (rev vs))
     \<and> reversal h1 s1 = Some (Inr (h, start))"
proof -
  let ?s1 = "if as = [] then None else Some (last as)"
  from reversal_loop_spec[OF assms, of None "[]"] obtain h1 where
    h1: "reversal_loop h start None = Some (Inr (h1, ?s1))"
        "chain link h1 ?s1 (rev as)"
        "\<forall>x. h1 x = (if x \<in> set as
                        then map_option (\<lambda>n. n\<lparr>link := before as None x\<rparr>) (h x)
                        else h x)"
    by (auto simp: chain_def)
  have d: "distinct as" using assms by (rule chain_distinct)
  from reversal_loop_spec[OF h1(2), of None "[]"] obtain h2 where
    h2: "reversal_loop h1 ?s1 None = Some (Inr (h2, if rev as = [] then None else Some (last (rev as))))"
        "\<forall>x. h2 x = (if x \<in> set (rev as)
                        then map_option (\<lambda>n. n\<lparr>link := before (rev as) None x\<rparr>) (h1 x)
                        else h1 x)"
    by (auto simp: chain_def)
  have "h2 x = h x" for x
  proof (cases "x \<in> set as")
    case True
    from chain_link_after[OF assms True] obtain n where n: "h x = Some n" "link n = after as x"
      by blast
    with True h1(3) h2(2) d show ?thesis by (simp add: before_rev_after)
  next
    case False
    with h1(3) h2(2) show ?thesis by simp
  qed
  then have eq: "h2 = h" by (rule ext)
  have st: "(if rev as = [] then None else Some (last (rev as))) = start"
    using assms by (cases as) (auto simp: chain_def last_rev)
  have i1: "infos h1 (rev as) = rev (infos h as)"
  proof -
    have "(case h1 a of None \<Rightarrow> 0 | Some n \<Rightarrow> info n) = (case h a of None \<Rightarrow> 0 | Some n \<Rightarrow> info n)" for a
      using h1(3) by (cases "h a") auto
    then show ?thesis by (simp add: infos_def rev_map)
  qed
  have "traversal h start = Some (Inr (infos h as))"
    using traversal_loop_chain[OF assms, of "[]"] by (simp add: traversal_def)
  moreover have "traversal h1 ?s1 = Some (Inr (rev (infos h as)))"
    using traversal_loop_chain[OF h1(2), of "[]"] i1 by (simp add: traversal_def)
  ultimately show ?thesis using h1(1) h2(1) eq st by (simp add: reversal_def)
qed

theorem reversal_involution_witness:
  "chain link sll_three (Some 0) [0, 1, 2]
   \<and> traversal sll_three (Some 0) = Some (Inr [1, 2, 3])
   \<and> (\<exists>h1 s1. reversal sll_three (Some 0) = Some (Inr (h1, s1))
         \<and> traversal h1 s1 = Some (Inr [3, 2, 1])
         \<and> reversal h1 s1 = Some (Inr (sll_three, Some 0)))"
proof -
  have c: "chain link sll_three (Some 0) [0, 1, 2]"
    by (simp add: chain_def sll_three_def)
  have t: "traversal sll_three (Some 0) = Some (Inr [1, 2, 3])"
    by (simp add: traversal_def traversal_loop.simps load_def sll_three_def)
  from reversal_involution[OF c] t c show ?thesis by auto
qed


section \<open>Stack: last in, first out\<close>

text \<open>
  C8.  From the empty stack, pushing 1, 2 and 3 into three different cells and
  popping three times prints 3, 2 and 1 in this order and leaves the stack
  empty; a fourth pop prints \<^verbatim>\<open>UNDERFLOW\<close> and changes nothing.
\<close>

theorem stack_lifo:
  "distinct [a1, a2, a3] \<Longrightarrow>
   \<exists>h1 h2 h3 h4 h5 h6.
      push h None (Some a1) 1 = Inr (h1, Some a1, [])
    \<and> push h1 (Some a1) (Some a2) 2 = Inr (h2, Some a2, [])
    \<and> push h2 (Some a2) (Some a3) 3 = Inr (h3, Some a3, [])
    \<and> pop h3 (Some a3) = Inr (h4, Some a2, [Deleted 3])
    \<and> pop h4 (Some a2) = Inr (h5, Some a1, [Deleted 2])
    \<and> pop h5 (Some a1) = Inr (h6, None, [Deleted 1])
    \<and> pop h6 None = Inr (h6, None, [Underflow])"
  by (simp add: push_def pop_def load_def store_def)

theorem stack_lifo_witness:
  "distinct [0, 1, 2 :: addr]
   \<and> (\<exists>h1 h2 h3 h4 h5 h6.
      push Map.empty None (Some 0) 1 = Inr (h1, Some 0, [])
    \<and> push h1 (Some 0) (Some 1) 2 = Inr (h2, Some 1, [])
    \<and> push h2 (Some 1) (Some 2) 3 = Inr (h3, Some 2, [])
    \<and> pop h3 (Some 2) = Inr (h4, Some 1, [Deleted 3])
    \<and> pop h4 (Some 1) = Inr (h5, Some 0, [Deleted 2])
    \<and> pop h5 (Some 0) = Inr (h6, None, [Deleted 1])
    \<and> pop h6 None = Inr (h6, None, [Underflow]))"
proof -
  have d: "distinct [0, 1, 2 :: addr]" by simp
  from stack_lifo[OF d, of Map.empty] d show ?thesis by blast
qed


section \<open>Queue: the front and rear pointers\<close>

text \<open>Linking a fresh cell behind the last cell of a list extends the list.\<close>

lemma chain_snoc:
  "chain link h p as \<Longrightarrow> as \<noteq> [] \<Longrightarrow> nw \<notin> set as \<Longrightarrow> h nw = Some m \<Longrightarrow> link m = None \<Longrightarrow>
   l = last as \<Longrightarrow> h l = Some n \<Longrightarrow>
   chain link (h(l \<mapsto> n\<lparr>link := Some nw\<rparr>)) p (as @ [nw])"
proof (induction as arbitrary: p)
  case Nil
  then show ?case by simp
next
  case (Cons a as)
  from Cons.prems(1) obtain c where c: "p = Some a" "h a = Some c" "chain link h (link c) as"
    by (auto simp: chain_def split: option.splits)
  show ?case
  proof (cases "as = []")
    case True
    with Cons.prems c show ?thesis by (auto simp: chain_def)
  next
    case False
    with Cons.prems(6) have l: "l = last as" by simp
    from chain_distinct[OF Cons.prems(1)] False l have ne: "a \<noteq> l" by auto
    from Cons.prems False l have "chain link (h(l \<mapsto> n\<lparr>link := Some nw\<rparr>)) (link c) (as @ [nw])"
      by (intro Cons.IH[OF c(3)]) auto
    then have "path link (h(l \<mapsto> n\<lparr>link := Some nw\<rparr>)) (link c) (as @ [nw]) None"
      by (simp only: chain_def)
    with ne c(2) have "path link (h(l \<mapsto> n\<lparr>link := Some nw\<rparr>)) (Some a) (a # (as @ [nw])) None"
      by (rule path_Cons_upd)
    with c(1) show ?thesis by (simp only: chain_def append_Cons)
  qed
qed

lemma queue_inv_initial: "queue_inv h None None []"
  by (simp add: queue_inv_def chain_def)

lemma queue_bracket:
  assumes "queue_inv h front rear as"
  shows "((front \<noteq> None \<and> front = rear) = (length as = 1))
       \<and> ((front = None \<and> rear = None) = (as = []))"
proof (cases as)
  case Nil
  with assms show ?thesis by (simp add: queue_inv_def chain_def)
next
  case (Cons a bs)
  from assms have d: "distinct as" by (auto simp: queue_inv_def dest: chain_distinct)
  from assms Cons have f: "front = Some a" "rear = Some (last (a # bs))"
    by (auto simp: queue_inv_def chain_def)
  show ?thesis
  proof (cases "bs = []")
    case True
    with f Cons show ?thesis by simp
  next
    case False
    with d Cons have "a \<noteq> last bs" by auto
    with f Cons False show ?thesis by simp
  qed
qed

lemma enqueue_inv:
  assumes inv: "queue_inv h front rear as" and fresh: "nw \<notin> dom h"
  shows "\<exists>h'. enqueue h front rear (Some nw) item =
                 Inr (h', (if as = [] then Some nw else front), Some nw, [])
     \<and> queue_inv h' (if as = [] then Some nw else front) (Some nw) (as @ [nw])"
proof (cases "as = []")
  case True
  with inv show ?thesis by (simp add: queue_inv_def chain_def enqueue_def)
next
  case False
  let ?h1 = "h(nw \<mapsto> \<lparr>info = item, link = None\<rparr>)"
  from inv have ch: "chain link h front as" and r: "rear = Some (last as)"
    using False by (auto simp: queue_inv_def)
  from fresh chain_cell[OF ch, of nw] have nw: "nw \<notin> set as" by (auto simp: dom_def)
  then have ch1: "chain link ?h1 front as"
    using ch by (simp add: chain_def path_upd_other)
  from chain_cell[OF ch, of "last as"] False obtain n where n: "h (last as) = Some n" by auto
  with nw False have n1: "?h1 (last as) = Some n" by auto
  have "chain link (?h1(last as \<mapsto> n\<lparr>link := Some nw\<rparr>)) front (as @ [nw])"
    by (rule chain_snoc[OF ch1 False nw _ _ refl n1]) auto
  moreover from nw False have "nw \<noteq> last as" by auto
  ultimately show ?thesis
    using False r n1 ch
    by (auto simp: enqueue_def store_def queue_inv_def chain_def Let_def)
qed

lemma dequeue_inv:
  assumes inv: "queue_inv h front rear as" and ne: "as \<noteq> []"
  shows "\<exists>h' f'. dequeue h front rear = Inr (h', f', (if tl as = [] then None else rear), [])
     \<and> queue_inv h' f' (if tl as = [] then None else rear) (tl as)"
proof -
  from ne obtain a bs where as: "as = a # bs" by (cases as) auto
  from inv as obtain c where c: "front = Some a" "h a = Some c" "chain link h (link c) bs"
    and r: "rear = Some (last (a # bs))"
    by (auto simp: queue_inv_def chain_def split: option.splits)
  from inv have d: "distinct as" by (auto simp: queue_inv_def dest: chain_distinct)
  show ?thesis
  proof (cases "bs = []")
    case True
    with as c r show ?thesis by (simp add: dequeue_def queue_inv_def chain_def)
  next
    case False
    with d as have "a \<noteq> last bs" "a \<notin> set bs" by auto
    moreover from this c(3) have "chain link (h(a := None)) (link c) bs"
      by (simp add: chain_def path_upd_other)
    ultimately show ?thesis
      using as c r False by (simp add: dequeue_def queue_inv_def load_def)
  qed
qed

text \<open>
  C9.  Let the queue be well formed: the cells \<open>as\<close> are linked from
  \<^verbatim>\<open>front\<close> to \<^verbatim>\<open>NULL\<close> and \<^verbatim>\<open>rear\<close> is the last of them (both
  pointers \<^verbatim>\<open>NULL\<close> when there is none); the queue of \<^verbatim>\<open>main\<close> starts
  so (lemma \<open>queue_inv_initial\<close>).  Then \<^verbatim>\<open>front\<close> and \<^verbatim>\<open>rear\<close> are
  the same cell exactly when the queue holds one element, and both are
  \<^verbatim>\<open>NULL\<close> exactly when it is empty; the code reads
  \<^verbatim>\<open>*front==*rear\<close> in the same way, after its test for the empty queue.
  \<^verbatim>\<open>enqueue\<close> and \<^verbatim>\<open>dequeue\<close> return a well-formed queue again, with
  the new cell appended and the first cell removed; \<^verbatim>\<open>enqueue\<close> on the
  empty queue sets both pointers to the new cell, and \<^verbatim>\<open>dequeue\<close> of the
  only element sets both to \<^verbatim>\<open>NULL\<close>.
\<close>

theorem queue_bracket_invariant:
  assumes "queue_inv h front rear as"
  shows "((front \<noteq> None \<and> front = rear) = (length as = 1))
     \<and> ((front = None \<and> rear = None) = (as = []))
     \<and> (\<forall>nw item. nw \<notin> dom h \<longrightarrow>
          (\<exists>h' f' r'. enqueue h front rear (Some nw) item = Inr (h', f', r', [])
             \<and> queue_inv h' f' r' (as @ [nw])
             \<and> (as = [] \<longrightarrow> f' = Some nw \<and> r' = Some nw)))
     \<and> (\<forall>item. enqueue h front rear None item = Inr (h, front, rear, [Overflow]))
     \<and> (as \<noteq> [] \<longrightarrow>
          (\<exists>h' f' r'. dequeue h front rear = Inr (h', f', r', [])
             \<and> queue_inv h' f' r' (tl as)
             \<and> (length as = 1 \<longrightarrow> f' = None \<and> r' = None)))
     \<and> (as = [] \<longrightarrow> dequeue h front rear = Inr (h, front, rear, [Underflow]))"
proof (intro conjI allI impI)
  show "(front \<noteq> None \<and> front = rear) = (length as = 1)"
    and "(front = None \<and> rear = None) = (as = [])"
    using queue_bracket[OF assms] by simp_all
next
  fix nw item
  assume "nw \<notin> dom h"
  from enqueue_inv[OF assms this, of item]
  show "\<exists>h' f' r'. enqueue h front rear (Some nw) item = Inr (h', f', r', [])
             \<and> queue_inv h' f' r' (as @ [nw])
             \<and> (as = [] \<longrightarrow> f' = Some nw \<and> r' = Some nw)"
    by auto
next
  fix item
  show "enqueue h front rear None item = Inr (h, front, rear, [Overflow])"
    by (simp add: enqueue_def)
next
  assume ne: "as \<noteq> []"
  from dequeue_inv[OF assms ne] obtain h' f' where
    d: "dequeue h front rear = Inr (h', f', (if tl as = [] then None else rear), [])"
       "queue_inv h' f' (if tl as = [] then None else rear) (tl as)"
    by blast
  have "length as = 1 \<longrightarrow> f' = None \<and> (if tl as = [] then None else rear) = None"
    using d(2) ne by (cases as) (auto simp: queue_inv_def chain_def)
  with d show "\<exists>h' f' r'. dequeue h front rear = Inr (h', f', r', [])
             \<and> queue_inv h' f' r' (tl as)
             \<and> (length as = 1 \<longrightarrow> f' = None \<and> r' = None)"
    by blast
next
  assume "as = []"
  with assms show "dequeue h front rear = Inr (h, front, rear, [Underflow])"
    by (simp add: queue_inv_def chain_def dequeue_def)
qed

theorem queue_bracket_invariant_witness:
  "queue_inv queue_two (Some 0) (Some 1) [0, 1]
   \<and> (\<exists>h' f' r'. enqueue queue_two (Some 0) (Some 1) (Some 2) 3 = Inr (h', f', r', [])
          \<and> queue_inv h' f' r' [0, 1, 2])
   \<and> (\<exists>h' f' r'. dequeue queue_two (Some 0) (Some 1) = Inr (h', f', r', [])
          \<and> queue_inv h' f' r' [1])"
proof -
  have q: "queue_inv queue_two (Some 0) (Some 1) [0, 1]"
    by (simp add: queue_inv_def chain_def queue_two_def)
  have f: "2 \<notin> dom queue_two"
    by (simp add: queue_two_def)
  from queue_bracket_invariant[OF q] have
    "\<forall>nw item. nw \<notin> dom queue_two \<longrightarrow>
          (\<exists>h' f' r'. enqueue queue_two (Some 0) (Some 1) (Some nw) item = Inr (h', f', r', [])
             \<and> queue_inv h' f' r' ([0, 1] @ [nw])
             \<and> ([0, 1] = [] \<longrightarrow> f' = Some nw \<and> r' = Some nw))"
    and "\<exists>h' f' r'. dequeue queue_two (Some 0) (Some 1) = Inr (h', f', r', [])
             \<and> queue_inv h' f' r' (tl [0, 1])
             \<and> (length [0, 1 :: addr] = 1 \<longrightarrow> f' = None \<and> r' = None)"
    by simp_all
  with f q show ?thesis by fastforce
qed


section \<open>Deletion by value keeps the head\<close>

lemma drop_first_split:
  "\<forall>x\<in>set pre. \<not> P x \<Longrightarrow> P q \<Longrightarrow> drop_first P (pre @ q # post) = pre @ post"
  by (induction pre) auto

lemma drop_first_none: "\<forall>x\<in>set xs. \<not> P x \<Longrightarrow> drop_first P xs = xs"
  by (induction xs) auto

text \<open>
  The walk, started with \<^verbatim>\<open>p\<close> on a cell of a list and \<^verbatim>\<open>q\<close> on its
  successor, returns: it stops with \<^verbatim>\<open>q\<close> on the first cell from there
  that holds \<open>v\<close>, or on the last cell when there is none, and with
  \<^verbatim>\<open>p\<close> one cell behind.
\<close>

lemma deleteAtvalue_walk_spec:
  "chain next h (Some pa) (pa # qa # rest) \<Longrightarrow>
   \<exists>pre post p q. deleteAtvalue_walk h v (Some pa) (Some qa) = Some (Inr (Some p, Some q))
      \<and> qa # rest = pre @ q # post \<and> p = last (pa # pre)
      \<and> (\<forall>x\<in>set pre. \<not> holds h v x) \<and> (holds h v q \<or> post = [])"
proof (induction rest arbitrary: pa qa)
  case Nil
  then obtain pn qn where c: "h pa = Some pn" "next pn = Some qa" "h qa = Some qn" "next qn = None"
    by (auto simp: chain_def split: option.splits)
  then have "deleteAtvalue_walk h v (Some pa) (Some qa) = Some (Inr (Some pa, Some qa))"
    by (subst deleteAtvalue_walk.simps) (simp add: load_def)
  then show ?case by auto
next
  case (Cons r rs)
  then obtain pn qn where c: "h pa = Some pn" "next pn = Some qa" "h qa = Some qn" "next qn = Some r"
    and ch: "chain next h (Some qa) (qa # r # rs)"
    by (auto simp: chain_def split: option.splits)
  show ?case
  proof (cases "data qn = v")
    case True
    with c have "deleteAtvalue_walk h v (Some pa) (Some qa) = Some (Inr (Some pa, Some qa))"
      by (subst deleteAtvalue_walk.simps) (simp add: load_def)
    moreover from True c have "holds h v qa" by (simp add: holds_def)
    ultimately show ?thesis by auto
  next
    case False
    with c have step:
      "deleteAtvalue_walk h v (Some pa) (Some qa) = deleteAtvalue_walk h v (Some qa) (Some r)"
      by (subst deleteAtvalue_walk.simps) (simp add: load_def)
    from False c have nh: "\<not> holds h v qa" by (simp add: holds_def)
    from Cons.IH[OF ch] obtain pre post p q where
      w: "deleteAtvalue_walk h v (Some qa) (Some r) = Some (Inr (Some p, Some q))"
         "r # rs = pre @ q # post" "p = last (qa # pre)"
         "\<forall>x\<in>set pre. \<not> holds h v x" "holds h v q \<or> post = []"
      by blast
    show ?thesis
      apply (rule exI[of _ "qa # pre"], rule exI[of _ post], rule exI[of _ p], rule exI[of _ q])
      using w nh step by simp
  qed
qed

text \<open>Unlinking and freeing the cell \<open>q\<close> behind \<open>p\<close> removes \<open>q\<close> from the list.\<close>

lemma path_unlink:
  assumes p: "path next h s (xs @ p # q # post) None"
    and d: "distinct (xs @ p # q # post)"
    and hp: "h p = Some pn" and hq: "h q = Some qn"
  shows "path next (h(p \<mapsto> pn\<lparr>next := next qn\<rparr>, q := None)) s (xs @ p # post) None"
proof -
  let ?h' = "h(p \<mapsto> pn\<lparr>next := next qn\<rparr>, q := None)"
  from p hp hq have a: "path next h s xs (Some p)" and b: "path next h (next qn) post None"
    by (auto simp: path_append split: option.splits)
  from d have "p \<notin> set xs" "q \<notin> set xs" "p \<notin> set post" "q \<notin> set post" "p \<noteq> q" by auto
  with a b have "path next ?h' s xs (Some p)" "path next ?h' (next qn) post None"
    "?h' p = Some (pn\<lparr>next := next qn\<rparr>)"
    by (simp_all add: path_upd_other)
  then show ?thesis by (simp add: path_append)
qed

text \<open>
  C10.  On a list of at least two cells \<open>a, b, ...\<close>, \<^verbatim>\<open>deleteAtvalue\<close>
  returns the head it was given, and the head cell stays first with its value,
  also when it holds \<open>v\<close>.  The list after the call is the list before without
  the first cell behind the head that holds \<open>v\<close>; the cells that remain keep
  their values, the removed cell is freed, and when no cell behind the head
  holds \<open>v\<close> the heap is unchanged.
\<close>

theorem deleteAtvalue_keeps_head:
  assumes ch: "chain next h head (a # b # bs)"
  shows "\<exists>h'. deleteAtvalue h head v = Some (Inr (h', head)) \<and> head = Some a
     \<and> chain next h' head (a # drop_first (holds h v) (b # bs))
     \<and> (\<forall>x\<in>set (a # drop_first (holds h v) (b # bs)).
           map_option data (h' x) = map_option data (h x))
     \<and> ((\<forall>x\<in>set (b # bs). \<not> holds h v x) \<longrightarrow> h' = h)
     \<and> ((\<exists>x\<in>set (b # bs). holds h v x) \<longrightarrow> (\<exists>x\<in>set (b # bs). holds h v x \<and> h' x = None))"
proof -
  from ch obtain hn where hd: "head = Some a" "h a = Some hn" "next hn = Some b"
    by (auto simp: chain_def split: option.splits)
  from ch hd(1) have ch': "chain next h (Some a) (a # b # bs)" by simp
  from deleteAtvalue_walk_spec[OF ch', of v] obtain pre post p q where
    w: "deleteAtvalue_walk h v (Some a) (Some b) = Some (Inr (Some p, Some q))"
       "b # bs = pre @ q # post" "p = last (a # pre)"
       "\<forall>x\<in>set pre. \<not> holds h v x" "holds h v q \<or> post = []"
    by blast
  have qin: "q \<in> set (a # b # bs)" using w(2) by simp
  from chain_cell[OF ch' qin] obtain qn where qn: "h q = Some qn" by blast
  show ?thesis
  proof (cases "holds h v q")
    case True
    with qn have dv: "data qn = v" by (simp add: holds_def)
    have "p \<in> set (a # b # bs)" using w(2,3) by (cases pre rule: rev_cases) auto
    from chain_cell[OF ch' this] obtain pn where pn: "h p = Some pn" by blast
    let ?h' = "h(p \<mapsto> pn\<lparr>next := next qn\<rparr>, q := None)"
    have res: "deleteAtvalue h head v = Some (Inr (?h', head))"
      using hd w(1) qn pn dv by (simp add: deleteAtvalue_def load_def store_def)
    obtain xs where xs: "a # pre = xs @ [p]"
      using w(3) by (metis append_butlast_last_id list.distinct(1))
    then have whole: "a # b # bs = xs @ p # q # post" using w(2) by simp
    with ch' have "path next h (Some a) (xs @ p # q # post) None" by (simp only: chain_def)
    moreover from chain_distinct[OF ch'] whole have dd: "distinct (xs @ p # q # post)" by simp
    ultimately have "path next ?h' (Some a) (xs @ p # post) None"
      using pn qn by (rule path_unlink)
    moreover have l: "xs @ p # post = a # drop_first (holds h v) (b # bs)"
      using xs w(2,4) True by (simp add: drop_first_split)
    ultimately have c: "chain next ?h' head (a # drop_first (holds h v) (b # bs))"
      using hd(1) by (simp add: chain_def)
    have "map_option data (?h' x) = map_option data (h x)" if "x \<in> set (xs @ p # post)" for x
      using that dd pn by auto
    with l have v: "\<forall>x\<in>set (a # drop_first (holds h v) (b # bs)).
        map_option data (?h' x) = map_option data (h x)"
      by simp
    have qb: "q \<in> set (b # bs)" using w(2) by simp
    moreover have "?h' q = None" by simp
    ultimately have "\<exists>x\<in>set (b # bs). holds h v x \<and> ?h' x = None" using True by blast
    moreover have "\<not> (\<forall>x\<in>set (b # bs). \<not> holds h v x)" using True qb by blast
    ultimately show ?thesis using res hd(1) c v by blast
  next
    case False
    with w(5) have post: "post = []" by simp
    from False qn have dv: "data qn \<noteq> v" by (simp add: holds_def)
    have res: "deleteAtvalue h head v = Some (Inr (h, head))"
      using hd w(1) qn dv by (simp add: deleteAtvalue_def load_def)
    have none: "\<forall>x\<in>set (b # bs). \<not> holds h v x"
      using w(2,4) False post by auto
    then have "drop_first (holds h v) (b # bs) = b # bs" by (rule drop_first_none)
    with res ch none hd(1) show ?thesis by simp
  qed
qed

theorem deleteAtvalue_keeps_head_witness:
  "chain next sll_four (Some 0) [0, 1, 2, 3]
   \<and> (\<exists>h'. deleteAtvalue sll_four (Some 0) 89 = Some (Inr (h', Some 0))
          \<and> chain next h' (Some 0) [0, 1, 3] \<and> h' 2 = None)
   \<and> (\<exists>h'. deleteAtvalue sll_four (Some 0) 23 = Some (Inr (h', Some 0))
          \<and> chain next h' (Some 0) [0, 1, 2, 3] \<and> h' = sll_four)"
proof -
  have c: "chain next sll_four (Some 0) [0, 1, 2, 3]"
    by (simp add: chain_def sll_four_def)
  have h: "\<not> holds sll_four 89 1" "holds sll_four 89 2" "\<not> holds sll_four 23 1"
     "\<not> holds sll_four 23 2" "\<not> holds sll_four 23 3" "\<not> holds sll_four 89 3"
    by (simp_all add: holds_def sll_four_def)
  from deleteAtvalue_keeps_head[OF c, of 89] deleteAtvalue_keeps_head[OF c, of 23] c h
  show ?thesis by auto
qed

end
